theory Spec2Isabelle
  imports Main "HOL-Library.Sublist"
begin

section \<open>Strings and the regular expressions of ACL\_check.py\<close>

text \<open>
  Line texts are modelled as lists of 8-bit characters. Python's \<open>s in t\<close> on two
  strings is the contiguous-substring test.
\<close>

fun str_in :: "string \<Rightarrow> string \<Rightarrow> bool" where
  "str_in s [] = (s = [])"
| "str_in s (c # cs) = (prefix s (c # cs) \<or> str_in s cs)"

text \<open>
  The patterns of the script only use literals, character classes, one-or-more
  repetition of a class, optional parts, alternation, the anchors and one capture
  group. \<open>rx_match\<close> is a backtracking matcher: it returns every way the pattern can
  match at the current position, in the order in which Python's engine tries them
  (left alternative first, greedy repetition longest first), so the head of the list is
  the match Python reports. A matcher state is: are we at the start of the text, the
  rest of the text, the text of group 1.
\<close>

datatype cset = In string | NotIn string

fun cmem :: "cset \<Rightarrow> char \<Rightarrow> bool" where
  "cmem (In cs) c = (c \<in> set cs)"
| "cmem (NotIn cs) c = (c \<notin> set cs)"

datatype regex =
    Lit string
  | One cset
  | Many1 cset
  | Seq regex regex
  | Alt regex regex
  | Opt regex
  | Bol
  | Eol
  | Grp regex

type_synonym mstate = "bool \<times> string \<times> string option"

fun rx_match :: "regex \<Rightarrow> mstate \<Rightarrow> mstate list" where
  "rx_match (Lit l) (b, s, g) =
     (if prefix l s then [(b \<and> l = [], drop (length l) s, g)] else [])"
| "rx_match (One cs) (b, s, g) =
     (case s of [] \<Rightarrow> [] | c # t \<Rightarrow> if cmem cs c then [(False, t, g)] else [])"
| "rx_match (Many1 cs) (b, s, g) =
     map (\<lambda>k. (False, drop k s, g)) (rev [1..<Suc (length (takeWhile (cmem cs) s))])"
| "rx_match (Seq r1 r2) st = concat (map (rx_match r2) (rx_match r1 st))"
| "rx_match (Alt r1 r2) st = rx_match r1 st @ rx_match r2 st"
| "rx_match (Opt r) st = rx_match r st @ [st]"
| "rx_match Bol (b, s, g) = (if b then [(b, s, g)] else [])"
| "rx_match Eol (b, s, g) = (if s = [] \<or> s = [CHR 0x0A] then [(b, s, g)] else [])"
| "rx_match (Grp r) (b, s, g) =
     map (\<lambda>(b', s', g'). (b', s', Some (take (length s - length s') s)))
       (rx_match r (b, s, g))"

text \<open>\<open>re.search\<close>: the first match at the leftmost position where there is one.\<close>

fun re_search :: "regex \<Rightarrow> bool \<Rightarrow> string \<Rightarrow> mstate option" where
  "re_search r b [] = (case rx_match r (b, [], None) of [] \<Rightarrow> None | m # _ \<Rightarrow> Some m)"
| "re_search r b (c # cs) =
     (case rx_match r (b, c # cs, None) of
        [] \<Rightarrow> re_search r False cs
      | m # _ \<Rightarrow> Some m)"

text \<open>
  \<open>re.findall\<close>: the non-overlapping matches from left to right; each is reported as
  group 1 when the pattern has a group and as the whole match otherwise.
\<close>

function findall_from :: "regex \<Rightarrow> bool \<Rightarrow> string \<Rightarrow> string list" where
  "findall_from r b s =
     (case rx_match r (b, s, None) of
        [] \<Rightarrow> (case s of [] \<Rightarrow> [] | c # cs \<Rightarrow> findall_from r False cs)
      | (b', s', g) # _ \<Rightarrow>
          (let item = (case g of Some x \<Rightarrow> x | None \<Rightarrow> take (length s - length s') s)
           in if length s' < length s then item # findall_from r False s'
              else (case s of [] \<Rightarrow> [item] | c # cs \<Rightarrow> item # findall_from r False cs)))"
  by pat_completeness auto
termination
  by (relation "measure (\<lambda>(r, b, s). length s)") auto

declare findall_from.simps [simp del]

definition findall :: "regex \<Rightarrow> string \<Rightarrow> string list" where
  "findall r s = findall_from r True s"

text \<open>
  \<open>\s\<close> on a Python 3 string is Unicode white space; in the 8-bit range that is
  tab, line feed, vertical tab, form feed, carriage return, the four separators
  0x1C..0x1F, blank, 0x85 and 0xA0.
\<close>

definition whitespace :: string where
  "whitespace = [CHR 0x09, CHR 0x0A, CHR 0x0B, CHR 0x0C, CHR 0x0D, CHR 0x1C, CHR 0x1D,
                 CHR 0x1E, CHR 0x1F, CHR 0x20, CHR 0x85, CHR 0xA0]"

definition digits :: string where
  "digits = ''0123456789''"

fun seqs :: "regex list \<Rightarrow> regex" where
  "seqs [] = Lit []"
| "seqs [r] = r"
| "seqs (r # rs) = Seq r (seqs rs)"

text \<open>\<open>'^object network (\S+)$'\<close>\<close>
definition RE_OBJECT_NETWORK :: regex where
  "RE_OBJECT_NETWORK = seqs [Bol, Lit ''object network '', Grp (Many1 (NotIn whitespace)), Eol]"

text \<open>\<open>'^object-group network (\S+)$'\<close>\<close>
definition RE_OBJECT_GROUP :: regex where
  "RE_OBJECT_GROUP =
     seqs [Bol, Lit ''object-group network '', Grp (Many1 (NotIn whitespace)), Eol]"

text \<open>\<open>'^ host\s(\S+)$'\<close>\<close>
definition RE_HOST :: regex where
  "RE_HOST = seqs [Bol, Lit '' host'', One (In whitespace), Grp (Many1 (NotIn whitespace)), Eol]"

text \<open>\<open>'^ subnet ([\S ]+)$'\<close>: the class is every non-space character and the blank.\<close>
definition RE_SUBNET :: regex where
  "RE_SUBNET =
     seqs [Bol, Lit '' subnet '', Grp (Many1 (NotIn (removeAll CHR '' '' whitespace))), Eol]"

text \<open>\<open>'^ network-object host (\S+)$'\<close>\<close>
definition RE_NETWORK_OBJECT_HOST :: regex where
  "RE_NETWORK_OBJECT_HOST =
     seqs [Bol, Lit '' network-object host '', Grp (Many1 (NotIn whitespace)), Eol]"

text \<open>\<open>'^ network-object object (\S+)$'\<close>\<close>
definition RE_NETWORK_OBJECT_OBJECT :: regex where
  "RE_NETWORK_OBJECT_OBJECT =
     seqs [Bol, Lit '' network-object object '', Grp (Many1 (NotIn whitespace)), Eol]"

text \<open>\<open>(?:25[0-5]|2[0-4][0-9]|[01]?[0-9][0-9]?)\<close>\<close>
definition rx_octet :: regex where
  "rx_octet =
     Alt (Seq (Lit ''25'') (One (In ''012345'')))
    (Alt (seqs [Lit ''2'', One (In ''01234''), One (In digits)])
         (seqs [Opt (One (In ''01'')), One (In digits), Opt (One (In digits))]))"

text \<open>\<open>(?:octet\.){3}octet\<close>\<close>
definition rx_dotted :: regex where
  "rx_dotted =
     seqs [Seq rx_octet (Lit ''.''), Seq rx_octet (Lit ''.''), Seq rx_octet (Lit ''.''),
           rx_octet]"

text \<open>\<open>'host (dotted)'\<close>\<close>
definition RE_BARE_ACL_HOST :: regex where
  "RE_BARE_ACL_HOST = Seq (Lit ''host '') (Grp rx_dotted)"

text \<open>\<open>'dotted dotted'\<close>, without a group\<close>
definition RE_BARE_SUBNET :: regex where
  "RE_BARE_SUBNET = seqs [rx_dotted, Lit '' '', rx_dotted]"

text \<open>\<open>"^access-list "\<close>\<close>
definition RE_ACCESS_LIST :: regex where
  "RE_ACCESS_LIST = Seq Bol (Lit ''access-list '')"

section \<open>Addresses\<close>

datatype error =
    UsageError
  | InvalidSubnetIP
  | AddressValueError string
  | NameError string
  | TypeError

text \<open>
  Modelled from the spec: the address class \<open>IPv4Obj\<close> of the library ciscoconfparse,
  which the script imports and whose code is not part of this repository. An address
  value is an address with a prefix length; a bare host has the full prefix length 32.
  \<open>contains self val\<close> is Python's \<open>val in self\<close>: the range of \<open>self\<close> covers
  the range of \<open>val\<close>, equal ranges included.
\<close>

record ipv4 =
  ip :: int
  prefixlen :: nat

definition numhosts :: "ipv4 \<Rightarrow> int" where
  "numhosts a = 2 ^ (32 - prefixlen a)"

definition network :: "ipv4 \<Rightarrow> int" where
  "network a = (ip a div numhosts a) * numhosts a"

definition broadcast :: "ipv4 \<Rightarrow> int" where
  "broadcast a = network a + numhosts a - 1"

definition contains :: "ipv4 \<Rightarrow> ipv4 \<Rightarrow> bool" where
  "contains self val = (network self \<le> network val \<and> broadcast val \<le> broadcast self)"

text \<open>
  Modelled from the spec: the constructor \<open>IPv4Obj(string)\<close> of the same library;
  \<open>None\<close> stands for the exception it raises on a malformed string. The library
  documents the spellings \<open>A\<close>, \<open>A/len\<close>, \<open>A M\<close> and \<open>A/M\<close> (address, prefix length,
  dotted netmask) and hands the parts to Python's \<open>ipaddress\<close>, which wants four
  decimal octets of at most three digits, none above 255, a prefix length of at most 32,
  and a mask that is a netmask or a hostmask. An octet written with zeros in front is
  read as the decimal number it spells.
\<close>

definition digit_val :: "char \<Rightarrow> int" where
  "digit_val c = of_char c - 48"

definition decimal :: "string \<Rightarrow> int" where
  "decimal s = foldl (\<lambda>n c. 10 * n + digit_val c) 0 s"

definition parse_octet :: "string \<Rightarrow> int option" where
  "parse_octet s =
     (if s = [] \<or> \<not> list_all (\<lambda>c. c \<in> set digits) s then None
      else if 3 < length s then None
      else if 255 < decimal s then None
      else Some (decimal s))"

fun split_on :: "char \<Rightarrow> string \<Rightarrow> string list" where
  "split_on d [] = [] # []"
| "split_on d (c # cs) =
     (if c = d then [] # split_on d cs
      else (case split_on d cs of [] \<Rightarrow> [c] # [] | w # ws \<Rightarrow> (c # w) # ws))"

definition ip_int_from_string :: "string \<Rightarrow> int option" where
  "ip_int_from_string s =
     (case map parse_octet (split_on CHR ''.'' s) of
        [Some a, Some b, Some c, Some d] \<Rightarrow> Some (((a * 256 + b) * 256 + c) * 256 + d)
      | _ \<Rightarrow> None)"

definition prefix_from_mask :: "int \<Rightarrow> nat option" where
  "prefix_from_mask m =
     (case find (\<lambda>p. m = 2 ^ 32 - 2 ^ (32 - p)) [0..<33] of
        Some p \<Rightarrow> Some p
      | None \<Rightarrow> find (\<lambda>p. m = 2 ^ (32 - p) - 1) [0..<33])"

definition IPv4Obj :: "string \<Rightarrow> ipv4 option" where
  "IPv4Obj s =
     (let a = takeWhile (\<lambda>c. c \<notin> set whitespace \<and> c \<noteq> CHR ''/'') s;
          r = dropWhile (\<lambda>c. c \<notin> set whitespace \<and> c \<noteq> CHR ''/'') s
      in case ip_int_from_string a of
           None \<Rightarrow> None
         | Some n \<Rightarrow>
             (case r of
                [] \<Rightarrow> Some \<lparr>ip = n, prefixlen = 32\<rparr>
              | c # t \<Rightarrow>
                  if c = CHR ''/'' \<and> t \<noteq> [] \<and> list_all (\<lambda>c. c \<in> set digits) t
                  then (if decimal t \<le> 32 then Some \<lparr>ip = n, prefixlen = nat (decimal t)\<rparr>
                        else None)
                  else (case ip_int_from_string
                               (if c = CHR ''/'' then t
                                else dropWhile (\<lambda>c. c \<in> set whitespace) t) of
                          None \<Rightarrow> None
                        | Some m \<Rightarrow>
                            (case prefix_from_mask m of
                               None \<Rightarrow> None
                             | Some p \<Rightarrow> Some \<lparr>ip = n, prefixlen = p\<rparr>))))"

text \<open>
  The test of \<open>match_network_objects\<close>, \<open>addr in subnet\<close> or else
  \<open>subnet in addr\<close>, as one predicate.
\<close>

definition contains_or_is_contained :: "ipv4 \<Rightarrow> ipv4 \<Rightarrow> bool" where
  "contains_or_is_contained a b = (contains b a \<or> contains a b)"

section \<open>Configuration lines\<close>

text \<open>
  Modelled from the spec: the parsed configuration of the library ciscoconfparse. Its
  lines are objects that the script's lists share by reference, so they live in a store:
  a line is an address, and the store gives every address its text, line number, parent
  and ordered children. \<open>fresh\<close> is the next unused address.
\<close>

record IOSCfgLine =
  text_of :: string
  linenum :: int
  parent_of :: nat
  children_of :: "nat list"

record store =
  line_at :: "nat \<Rightarrow> IOSCfgLine"
  fresh :: nat

text \<open>\<open>IOSCfgLine(text)\<close>: a new line without children that is its own parent.\<close>

definition new_IOSCfgLine :: "store \<Rightarrow> string \<Rightarrow> nat \<times> store" where
  "new_IOSCfgLine h t =
     (fresh h,
      h\<lparr>line_at := (line_at h)(fresh h :=
             \<lparr>text_of = t, linenum = - 1, parent_of = fresh h, children_of = []\<rparr>),
        fresh := Suc (fresh h)\<rparr>)"

text \<open>
  \<open>parent.add_child(child)\<close> appends the child unless the parent already has a child
  equal to it; the library compares lines by line number and text.
\<close>

definition line_eq :: "store \<Rightarrow> nat \<Rightarrow> nat \<Rightarrow> bool" where
  "line_eq h a b =
     (linenum (line_at h a) = linenum (line_at h b) \<and>
      text_of (line_at h a) = text_of (line_at h b))"

definition add_child :: "store \<Rightarrow> nat \<Rightarrow> nat \<Rightarrow> store" where
  "add_child h p c =
     (if list_ex (\<lambda>k. line_eq h c k) (children_of (line_at h p)) then h
      else h\<lparr>line_at := (line_at h)(p :=
               (line_at h p)\<lparr>children_of := children_of (line_at h p) @ [c]\<rparr>)\<rparr>)"

text \<open>
  \<open>line.re_match(regex, default=d)\<close>: group 1 of the first match in the line's text,
  the default when there is no match.
\<close>

definition re_match :: "store \<Rightarrow> nat \<Rightarrow> regex \<Rightarrow> string option \<Rightarrow> string option" where
  "re_match h l r d =
     (case re_search r True (text_of (line_at h l)) of
        None \<Rightarrow> d
      | Some (b, s, g) \<Rightarrow> g)"

text \<open>\<open>config.find_objects(regex)\<close>: the lines of the configuration, in order, whose
  text the pattern matches somewhere.\<close>

definition find_objects :: "store \<Rightarrow> nat list \<Rightarrow> regex \<Rightarrow> nat list" where
  "find_objects h config r =
     filter (\<lambda>l. re_search r True (text_of (line_at h l)) \<noteq> None) config"

text \<open>Python's truth value of a string or \<open>None\<close>.\<close>

fun truthy :: "string option \<Rightarrow> bool" where
  "truthy None = False"
| "truthy (Some s) = (s \<noteq> [])"

section \<open>The matching functions\<close>

definition bindE :: "error + 'a \<Rightarrow> ('a \<Rightarrow> error + 'b) \<Rightarrow> error + 'b" where
  "bindE m f = (case m of Inl e \<Rightarrow> Inl e | Inr x \<Rightarrow> f x)"

fun is_substring_of_obj_list :: "store \<Rightarrow> string \<Rightarrow> nat list \<Rightarrow> bool" where
  "is_substring_of_obj_list h obj_name [] = False"
| "is_substring_of_obj_list h obj_name (obj # matched_objects) =
     (if str_in obj_name (text_of (line_at h obj)) then True
      else is_substring_of_obj_list h obj_name matched_objects)"

text \<open>
  The inner loop of \<open>match_network_objects\<close> over the children of one object: does
  it reach an append (and \<open>break\<close>)? The constructor \<open>IPv4Obj\<close> is called without a
  guard, so its exception leaves the function.
\<close>

fun covering_child :: "store \<Rightarrow> ipv4 \<Rightarrow> nat list \<Rightarrow> error + bool" where
  "covering_child h subnet [] = Inr False"
| "covering_child h subnet (child # rest) =
     (let ip_str = re_match h child RE_HOST None;
          ip_str = (if \<not> truthy ip_str then re_match h child RE_SUBNET None else ip_str)
      in case ip_str of
           None \<Rightarrow> covering_child h subnet rest
         | Some s \<Rightarrow>
             if s = [] then covering_child h subnet rest
             else (case IPv4Obj s of
                     None \<Rightarrow> Inl (AddressValueError s)
                   | Some addr \<Rightarrow>
                       if contains subnet addr then Inr True
                       else if contains addr subnet then Inr True
                       else covering_child h subnet rest))"

fun match_network_objects :: "store \<Rightarrow> ipv4 \<Rightarrow> nat list \<Rightarrow> error + nat list" where
  "match_network_objects h subnet [] = Inr []"
| "match_network_objects h subnet (obj # network_objects) =
     bindE (covering_child h subnet (children_of (line_at h obj))) (\<lambda>hit.
     bindE (match_network_objects h subnet network_objects) (\<lambda>matched_objects.
       Inr (if hit then obj # matched_objects else matched_objects)))"

text \<open>The inner loop of \<open>match_network_object_groups\<close>: the list \<open>children\<close>.\<close>

fun matched_children :: "store \<Rightarrow> ipv4 \<Rightarrow> nat list \<Rightarrow> nat list \<Rightarrow> error + nat list" where
  "matched_children h subnet matched_objects [] = Inr []"
| "matched_children h subnet matched_objects (child # rest) =
     (let network_object = re_match h child RE_NETWORK_OBJECT_OBJECT None
      in bindE
           (if truthy network_object then
              (case network_object of
                 None \<Rightarrow> Inr False
               | Some n \<Rightarrow> Inr (is_substring_of_obj_list h n matched_objects))
            else
              (case re_match h child RE_NETWORK_OBJECT_HOST None of
                 None \<Rightarrow> Inr False
               | Some s \<Rightarrow>
                   if s = [] then Inr False
                   else (case IPv4Obj s of
                           None \<Rightarrow> Inl (AddressValueError s)
                         | Some addr \<Rightarrow> Inr (contains subnet addr))))
           (\<lambda>keep.
              bindE (matched_children h subnet matched_objects rest) (\<lambda>children.
                Inr (if keep then child # children else children))))"

fun add_children :: "store \<Rightarrow> nat \<Rightarrow> nat list \<Rightarrow> store" where
  "add_children h parent [] = h"
| "add_children h parent (child # children) = add_children (add_child h parent child) parent children"

fun match_network_object_groups ::
  "store \<Rightarrow> ipv4 \<Rightarrow> nat list \<Rightarrow> nat list \<Rightarrow> error + (store \<times> nat list)" where
  "match_network_object_groups h subnet [] matched_objects = Inr (h, [])"
| "match_network_object_groups h subnet (grp # object_groups) matched_objects =
     bindE (matched_children h subnet matched_objects (children_of (line_at h grp)))
       (\<lambda>children.
          if children \<noteq> [] then
            (let (parent, h1) = new_IOSCfgLine h (text_of (line_at h grp));
                 h2 = add_children h1 parent children
             in bindE (match_network_object_groups h2 subnet object_groups matched_objects)
                  (\<lambda>(h3, matched_groups). Inr (h3, parent # matched_groups)))
          else match_network_object_groups h subnet object_groups matched_objects)"

section \<open>The script\<close>

text \<open>
  The loops over one access-list line. The first two look for the name of a matched
  object or group in the line's text; \<open>re_match\<close> is called with its default
  default, the empty string.
\<close>

fun name_in_line :: "store \<Rightarrow> regex \<Rightarrow> nat list \<Rightarrow> string \<Rightarrow> bool" where
  "name_in_line h r [] t = False"
| "name_in_line h r (obj # rest) t =
     (case re_match h obj r (Some []) of
        None \<Rightarrow> name_in_line h r rest t
      | Some obj_name \<Rightarrow> if str_in obj_name t then True else name_in_line h r rest t)"

text \<open>Lines 257 to 260: the addresses after \<open>host\<close>, parsed without a guard.\<close>

fun bare_host_hit :: "ipv4 option \<Rightarrow> string list \<Rightarrow> error + bool" where
  "bare_host_hit subnet [] = Inr False"
| "bare_host_hit subnet (IP # IPs) =
     (case IPv4Obj IP of
        None \<Rightarrow> Inl (AddressValueError IP)
      | Some addr \<Rightarrow>
          (case subnet of
             None \<Rightarrow> Inl TypeError
           | Some q \<Rightarrow> if contains q addr then Inr True else bare_host_hit subnet IPs))"

text \<open>Lines 265 to 271: the address pairs, inside \<open>try\<close> ... \<open>except: pass\<close>.\<close>

fun bare_subnet_hit :: "ipv4 option \<Rightarrow> string list \<Rightarrow> bool" where
  "bare_subnet_hit subnet [] = False"
| "bare_subnet_hit subnet (IP # IPs) =
     (case IPv4Obj IP of
        None \<Rightarrow> bare_subnet_hit subnet IPs
      | Some addr \<Rightarrow>
          (case subnet of
             None \<Rightarrow> bare_subnet_hit subnet IPs
           | Some q \<Rightarrow> if contains q addr then True else bare_subnet_hit subnet IPs))"

definition lookup :: "string \<Rightarrow> 'a option \<Rightarrow> error + 'a" where
  "lookup name v = (case v of None \<Rightarrow> Inl (NameError name) | Some x \<Rightarrow> Inr x)"

text \<open>
  The body of the loop over the access-list lines (lines 243 to 271): four loops one
  after the other, each of which may append the line to \<open>ACL_matches\<close>. A global
  that was never assigned raises NameError when it is read.
\<close>

definition ACL_body ::
  "store \<Rightarrow> ipv4 option \<Rightarrow> nat list option \<Rightarrow> nat list option \<Rightarrow> nat \<Rightarrow> nat list
     \<Rightarrow> error + nat list" where
  "ACL_body h subnet matched_objects matched_groups line ACL_matches =
     (let t = text_of (line_at h line) in
      bindE (lookup ''matched_objects'' matched_objects) (\<lambda>objs.
      let m1 = (if name_in_line h RE_OBJECT_NETWORK objs t then ACL_matches @ [line]
                else ACL_matches) in
      bindE (lookup ''matched_groups'' matched_groups) (\<lambda>grps.
      let m2 = (if name_in_line h RE_OBJECT_GROUP grps t then m1 @ [line] else m1) in
      bindE (bare_host_hit subnet (findall RE_BARE_ACL_HOST t)) (\<lambda>hit3.
      let m3 = (if hit3 then m2 @ [line] else m2) in
      Inr (if bare_subnet_hit subnet (findall RE_BARE_SUBNET t) then m3 @ [line] else m3)))))"

fun ACL_loop ::
  "store \<Rightarrow> ipv4 option \<Rightarrow> nat list option \<Rightarrow> nat list option \<Rightarrow> nat list \<Rightarrow> nat list
     \<Rightarrow> error + nat list" where
  "ACL_loop h subnet matched_objects matched_groups [] ACL_matches = Inr ACL_matches"
| "ACL_loop h subnet matched_objects matched_groups (line # ACL) ACL_matches =
     bindE (ACL_body h subnet matched_objects matched_groups line ACL_matches)
       (ACL_loop h subnet matched_objects matched_groups ACL)"

text \<open>The three print loops at the end of the script.\<close>

definition print_blocks :: "store \<Rightarrow> nat list \<Rightarrow> string list" where
  "print_blocks h objs =
     concat (map (\<lambda>obj. text_of (line_at h obj) #
                         map (\<lambda>child. text_of (line_at h child)) (children_of (line_at h obj)))
               objs)"

record result =
  matched_objects_of :: "nat list"
  matched_groups_of :: "nat list"
  ACL_matches_of :: "nat list"
  printed :: "string list"

text \<open>
  \<open>if q: v = f(q)\<close>: the variable is bound only when the query was given.
\<close>

definition assign_if :: "'q option \<Rightarrow> ('q \<Rightarrow> error + 'a) \<Rightarrow> error + 'a option" where
  "assign_if q f = (case q of None \<Rightarrow> Inr None | Some x \<Rightarrow> bindE (f x) (\<lambda>v. Inr (Some v)))"

definition assign_groups_if ::
  "store \<Rightarrow> ipv4 option \<Rightarrow> nat list \<Rightarrow> string \<Rightarrow> nat list option
     \<Rightarrow> error + (store \<times> nat list option)" where
  "assign_groups_if h q object_groups name matched =
     (case q of
        None \<Rightarrow> Inr (h, None)
      | Some x \<Rightarrow>
          bindE (lookup name matched) (\<lambda>objs.
          bindE (match_network_object_groups h x object_groups objs) (\<lambda>(h', groups).
            Inr (h', Some groups))))"

text \<open>
  Lines 211 to 287, after the three queries were parsed. \<open>config\<close> is the list of all
  lines of the configuration. Line 235 passes the variable \<open>dest_matched_groups\<close>,
  which nothing has assigned yet; the access-list loop and the report read
  \<open>matched_objects\<close>, \<open>matched_groups\<close> and \<open>subnet\<close> only.
\<close>

definition run ::
  "store \<Rightarrow> nat list \<Rightarrow> ipv4 option \<Rightarrow> ipv4 option \<Rightarrow> ipv4 option \<Rightarrow> error + (store \<times> result)" where
  "run h config subnet source dest =
     (let net_objs = find_objects h config RE_OBJECT_NETWORK in
      bindE (assign_if subnet (\<lambda>q. match_network_objects h q net_objs)) (\<lambda>matched_objects.
      bindE (assign_if source (\<lambda>q. match_network_objects h q net_objs)) (\<lambda>source_matched_objects.
      bindE (assign_if dest (\<lambda>q. match_network_objects h q net_objs)) (\<lambda>dest_matched_objects.
      let object_groups = find_objects h config RE_OBJECT_GROUP in
      bindE (assign_groups_if h subnet object_groups ''matched_objects'' matched_objects)
        (\<lambda>(h1, matched_groups).
      bindE (assign_groups_if h1 source object_groups ''source_matched_objects''
               source_matched_objects)
        (\<lambda>(h2, source_matched_groups).
      bindE (assign_groups_if h2 dest object_groups ''dest_matched_groups'' None)
        (\<lambda>(h3, dest_matched_groups).
      let ACL = find_objects h3 config RE_ACCESS_LIST in
      bindE (ACL_loop h3 subnet matched_objects matched_groups ACL []) (\<lambda>ACL_matches.
      bindE (lookup ''matched_objects'' matched_objects) (\<lambda>objs.
      bindE (lookup ''matched_groups'' matched_groups) (\<lambda>grps.
        Inr (h3, \<lparr>matched_objects_of = objs, matched_groups_of = grps,
                  ACL_matches_of = ACL_matches,
                  printed = [''Matched network objects''] @ print_blocks h3 objs
                          @ ['''', ''Matched object groups''] @ print_blocks h3 grps
                          @ ['''', ''Matched ACLs''] @ map (\<lambda>l. text_of (line_at h3 l)) ACL_matches
                 \<rparr>)))))))))))"

text \<open>
  Lines 66 to 113: \<open>-i\<close> excludes \<open>-s\<close> and \<open>-d\<close>, one of them must be given, and
  every given query must parse, or else the script prints "Invalid subnet/IP" and exits.
\<close>

definition parse_query :: "string option \<Rightarrow> error + ipv4 option" where
  "parse_query arg =
     (if truthy arg then
        (case arg of
           None \<Rightarrow> Inr None
         | Some s \<Rightarrow> (case IPv4Obj s of None \<Rightarrow> Inl InvalidSubnetIP | Some q \<Rightarrow> Inr (Some q)))
      else Inr None)"

definition script ::
  "store \<Rightarrow> nat list \<Rightarrow> string option \<Rightarrow> string option \<Rightarrow> string option
     \<Rightarrow> error + (store \<times> result)" where
  "script h config ip_arg source_arg dest_arg =
     (if truthy ip_arg \<and> (truthy source_arg \<or> truthy dest_arg) then Inl UsageError
      else if \<not> (truthy ip_arg \<or> truthy source_arg \<or> truthy dest_arg) then Inl UsageError
      else
        bindE (parse_query ip_arg) (\<lambda>subnet.
        bindE (parse_query source_arg) (\<lambda>source.
        bindE (parse_query dest_arg) (\<lambda>dest.
          run h config subnet source dest))))"

text \<open>
  A parsed configuration for examples: every entry gives a line's text, its parent and
  its children; the line number is the position in the list.
\<close>

definition blank_line :: IOSCfgLine where
  "blank_line = \<lparr>text_of = [], linenum = - 1, parent_of = 0, children_of = []\<rparr>"

definition parsed :: "(string \<times> nat \<times> nat list) list \<Rightarrow> store" where
  "parsed ls =
     \<lparr>line_at = (\<lambda>i. if i < length ls
                      then (case ls ! i of (t, p, cs) \<Rightarrow>
                              \<lparr>text_of = t, linenum = int i, parent_of = p, children_of = cs\<rparr>)
                      else blank_line),
      fresh = length ls\<rparr>"

text \<open>What a run ends with: the exception that stopped it, or its report.\<close>

definition raised :: "error + 'a \<Rightarrow> error option" where
  "raised x = (case x of Inl e \<Rightarrow> Some e | Inr y \<Rightarrow> None)"

definition report_of :: "error + (store \<times> result) \<Rightarrow> result option" where
  "report_of x = (case x of Inl e \<Rightarrow> None | Inr (h, r) \<Rightarrow> Some r)"

text \<open>
  The end-to-end scenario of the spec: one object, one group that refers to it, one
  access-list line that names the group.
\<close>

definition web_config :: store where
  "web_config = parsed
     [(''object network WEB'', 0, [1]),
      ('' host 203.0.113.10'', 0, []),
      (''object-group network WEB-GROUP'', 2, [3]),
      ('' network-object object WEB'', 2, []),
      (''access-list OUTSIDE-IN extended permit tcp any object WEB-GROUP eq 443'', 4, [])]"

text \<open>An object whose only child carries no address after \<open>host\<close>.\<close>

definition bad_host_config :: store where
  "bad_host_config = parsed
     [(''object network SRV'', 0, [1]),
      ('' host srv.example.org'', 0, [])]"

section \<open>What the claims call a match\<close>

text \<open>
  The address string a child of an object yields: the host pattern first, the subnet
  pattern as fallback.
\<close>

definition child_address :: "store \<Rightarrow> nat \<Rightarrow> string option" where
  "child_address h child =
     (if truthy (re_match h child RE_HOST None) then re_match h child RE_HOST None
      else re_match h child RE_SUBNET None)"

text \<open>A child covers the query when its string parses to an address that contains the
  query's range or lies inside it.\<close>

definition child_covers :: "store \<Rightarrow> ipv4 \<Rightarrow> nat \<Rightarrow> bool" where
  "child_covers h q child =
     (case child_address h child of
        None \<Rightarrow> False
      | Some s \<Rightarrow> s \<noteq> [] \<and>
          (case IPv4Obj s of None \<Rightarrow> False | Some addr \<Rightarrow> contains_or_is_contained addr q))"

text \<open>A child is harmless when it yields no address string or one that parses.\<close>

definition child_parses :: "store \<Rightarrow> nat \<Rightarrow> bool" where
  "child_parses h child =
     (case child_address h child of
        None \<Rightarrow> True
      | Some s \<Rightarrow> s = [] \<or> IPv4Obj s \<noteq> None)"

definition object_covered :: "store \<Rightarrow> ipv4 \<Rightarrow> nat \<Rightarrow> bool" where
  "object_covered h q obj = list_ex (child_covers h q) (children_of (line_at h obj))"

text \<open>An address string taken from an access-list line is covered by the query when it
  parses and the query's range contains the address.\<close>

definition covered_by :: "ipv4 \<Rightarrow> string \<Rightarrow> bool" where
  "covered_by q IP = (case IPv4Obj IP of None \<Rightarrow> False | Some addr \<Rightarrow> contains q addr)"

text \<open>Three objects; the first has a child after its covering child that does not parse.\<close>

definition objects_config :: store where
  "objects_config = parsed
     [(''object network A'', 0, [1, 2]),
      ('' host 10.0.0.5'', 0, []),
      ('' host bogus'', 0, []),
      (''object network B'', 3, [4]),
      ('' subnet 192.168.1.0 255.255.255.0'', 3, []),
      (''object network C'', 5, [6]),
      ('' subnet 10.0.0.0 255.0.0.0'', 5, [])]"


text \<open>What \<open>add_child\<close> compares two lines by.\<close>

definition line_key :: "store \<Rightarrow> nat \<Rightarrow> int \<times> string" where
  "line_key h l = (linenum (line_at h l), text_of (line_at h l))"








text \<open>
  The strings a pattern can consume, whatever the position and the alternatives the
  matcher tries first.
\<close>

fun lang :: "regex \<Rightarrow> string set" where
  "lang (Lit l) = {l}"
| "lang (One cs) = {u. \<exists>c. u = [c] \<and> cmem cs c}"
| "lang (Many1 cs) = {u. u \<noteq> [] \<and> list_all (cmem cs) u}"
| "lang (Seq r1 r2) = {u. \<exists>v w. u = v @ w \<and> v \<in> lang r1 \<and> w \<in> lang r2}"
| "lang (Alt r1 r2) = lang r1 \<union> lang r2"
| "lang (Opt r) = insert [] (lang r)"
| "lang Bol = {[]}"
| "lang Eol = {[]}"
| "lang (Grp r) = lang r"

text \<open>One to three decimal digits with a value of at most 255.\<close>

definition octet_shape :: "string \<Rightarrow> bool" where
  "octet_shape s =
     (s \<noteq> [] \<and> length s \<le> 3 \<and> list_all (\<lambda>c. c \<in> set digits) s \<and> decimal s \<le> 255)"


section \<open>Containment\<close>

lemma numhosts_pos: "0 < numhosts a"
  by (simp add: numhosts_def)

lemma network_le_broadcast: "network a \<le> broadcast a"
  using numhosts_pos [of a] by (simp add: broadcast_def)

lemma contains_refl: "contains a a"
  by (simp add: contains_def)

lemma contains_trans: "contains a b \<Longrightarrow> contains b c \<Longrightarrow> contains a c"
  by (auto simp: contains_def)

text \<open>
  \<^bold>\<open>C9\<close>. The test "a contains b or b contains a" is reflexive and symmetric: it
  holds of every address with itself, and its value on (A, B) is its value on (B, A).
\<close>

theorem C9_containment_reflexive_symmetric:
  "contains_or_is_contained a a \<and>
   contains_or_is_contained a b = contains_or_is_contained b a"
  by (auto simp: contains_or_is_contained_def contains_def)

theorem C9_containment_witness:
  "contains_or_is_contained \<lparr>ip = 167772165, prefixlen = 32\<rparr> \<lparr>ip = 167772165, prefixlen = 32\<rparr> \<and>
   contains_or_is_contained \<lparr>ip = 167772165, prefixlen = 32\<rparr> \<lparr>ip = 167772160, prefixlen = 24\<rparr>
     = contains_or_is_contained \<lparr>ip = 167772160, prefixlen = 24\<rparr> \<lparr>ip = 167772165, prefixlen = 32\<rparr>"
  using C9_containment_reflexive_symmetric
          [of "\<lparr>ip = 167772165, prefixlen = 32\<rparr>" "\<lparr>ip = 167772160, prefixlen = 24\<rparr>"]
  by simp

section \<open>The three queries\<close>

lemma ACL_loop_unbound:
  "ACL_loop h subnet None matched_groups ACL acc = Inr r \<Longrightarrow> ACL = []"
  by (cases ACL) (simp_all add: ACL_body_def bindE_def lookup_def)

text \<open>
  Without the general query the script never reaches its end: whatever the source and
  destination queries are, it stops with an exception.
\<close>

lemma run_without_general_query: "run h config None source dest \<noteq> Inr x"
  by (auto simp: run_def Let_def bindE_def lookup_def assign_if_def
           split: sum.splits prod.splits)

text \<open>
  \<^bold>\<open>C1\<close>. The claim: the source and the destination query each run the whole
  pipeline on their own and produce their own matched access-list lines. On the spec's
  scenario the script does neither: with the source query alone it stops at the first
  access-list line, where it reads \<open>matched_objects\<close>, which only the general query
  assigns; with the destination query alone it stops at line 235, which reads
  \<open>dest_matched_groups\<close> before anything has assigned it.
\<close>

theorem C1_source_and_destination_runs_fail:
  "raised (script web_config [0, 1, 2, 3, 4] None (Some ''203.0.113.0/24'') None)
     = Some (NameError ''matched_objects'') \<and>
   raised (script web_config [0, 1, 2, 3, 4] None None (Some ''203.0.113.0/24''))
     = Some (NameError ''dest_matched_groups'')"
  by code_simp

section \<open>Access-list lines\<close>

text \<open>
  \<^bold>\<open>C2\<close>. The claim: a line appears at most once among the matched access-list lines,
  because the four conditions short-circuit. On the spec's scenario with the general
  query 203.0.113.0/24 the one access-list line contains the name of the matched object
  (WEB) and the name of the matched group (WEB-GROUP); each \<open>break\<close> only leaves its
  own loop, and the line is appended twice.
\<close>

theorem C2_line_appended_twice:
  "map_option ACL_matches_of
     (report_of (script web_config [0, 1, 2, 3, 4] (Some ''203.0.113.0/24'') None None))
   = Some [4, 4]"
  by code_simp

section \<open>Parse failures\<close>

text \<open>
  \<^bold>\<open>C7\<close>. The claim: no address that fails to parse while the configuration is scanned
  aborts the run. An object whose child is \<open>host srv.example.org\<close> does: the
  constructor's exception leaves \<open>match_network_objects\<close>, which has no guard, and
  the script ends without a report.
\<close>

theorem C7_unparsable_child_aborts:
  "raised (script bad_host_config [0, 1] (Some ''10.0.0.1'') None None)
     = Some (AddressValueError ''srv.example.org'')"
  by code_simp

section \<open>Network objects\<close>

lemma covering_child_step:
  "covering_child h q (c # rest) =
     (case child_address h c of
        None \<Rightarrow> covering_child h q rest
      | Some s \<Rightarrow>
          if s = [] then covering_child h q rest
          else (case IPv4Obj s of
                  None \<Rightarrow> Inl (AddressValueError s)
                | Some addr \<Rightarrow>
                    if contains_or_is_contained addr q then Inr True
                    else covering_child h q rest))"
proof (cases "re_match h c RE_HOST None")
  case None
  then show ?thesis
    by (simp add: child_address_def contains_or_is_contained_def Let_def
             split: option.split)
next
  case (Some s)
  then show ?thesis
    by (cases "s = []")
       (simp_all add: child_address_def contains_or_is_contained_def Let_def
             split: option.split)
qed

lemma covering_child_Inr:
  "covering_child h q cs = Inr b \<Longrightarrow> b = list_ex (child_covers h q) cs"
proof (induction cs)
  case Nil
  then show ?case by simp
next
  case (Cons c cs)
  show ?case
  proof (cases "child_address h c")
    case None
    with Cons show ?thesis
      by (simp add: covering_child_step child_covers_def del: covering_child.simps)
  next
    case (Some s)
    show ?thesis
    proof (cases "s = []")
      case True
      with Some Cons show ?thesis
        by (simp add: covering_child_step child_covers_def del: covering_child.simps)
    next
      case False
      show ?thesis
      proof (cases "IPv4Obj s")
        case None
        with Some False Cons.prems show ?thesis
          by (simp add: covering_child_step del: covering_child.simps)
      next
        case (Some addr)
        with \<open>child_address h c = Some s\<close> False Cons show ?thesis
          by (cases "contains_or_is_contained addr q")
             (simp_all add: covering_child_step child_covers_def del: covering_child.simps)
      qed
    qed
  qed
qed

lemma match_network_objects_Inr:
  "match_network_objects h q objs = Inr res \<Longrightarrow> res = filter (object_covered h q) objs"
proof (induction objs arbitrary: res)
  case Nil
  then show ?case by simp
next
  case (Cons obj objs)
  from Cons.prems obtain hit rest where
    c: "covering_child h q (children_of (line_at h obj)) = Inr hit" and
    r: "match_network_objects h q objs = Inr rest" and
    e: "res = (if hit then obj # rest else rest)"
    by (auto simp: bindE_def split: sum.splits)
  from covering_child_Inr [OF c] Cons.IH [OF r] e show ?case
    by (simp add: object_covered_def)
qed

lemma covering_child_covers:
  "child_covers h q c \<Longrightarrow> covering_child h q (c # post) = Inr True"
  by (auto simp: covering_child_step child_covers_def simp del: covering_child.simps
           split: option.splits)

lemma covering_child_total:
  "list_all (child_parses h) cs \<Longrightarrow> \<exists>b. covering_child h q cs = Inr b"
proof (induction cs)
  case Nil
  then show ?case by auto
next
  case (Cons c cs)
  then show ?case
    by (auto simp: covering_child_step child_parses_def simp del: covering_child.simps
             split: option.splits)
qed

lemma match_network_objects_total:
  "list_all (\<lambda>obj. list_all (child_parses h) (children_of (line_at h obj))) objs
   \<Longrightarrow> \<exists>res. match_network_objects h q objs = Inr res"
proof (induction objs)
  case Nil
  then show ?case by simp
next
  case (Cons obj objs)
  then obtain b res where "covering_child h q (children_of (line_at h obj)) = Inr b"
      "match_network_objects h q objs = Inr res"
    using covering_child_total [of h "children_of (line_at h obj)" q] by auto
  then show ?case by (simp add: bindE_def)
qed

lemma bare_host_hit_Inr:
  "bare_host_hit (Some q) IPs = Inr hit \<Longrightarrow> hit = list_ex (covered_by q) IPs"
  by (induction IPs arbitrary: hit) (auto simp: covered_by_def split: option.splits if_splits)



lemma covering_child_first:
  "covering_child h q pre = Inr False \<Longrightarrow> child_covers h q c
   \<Longrightarrow> covering_child h q (pre @ c # post) = Inr True"
proof (induction pre)
  case Nil
  then show ?case by (simp add: covering_child_covers del: covering_child.simps)
next
  case (Cons p pre)
  from Cons.prems(1) have "covering_child h q pre = Inr False \<and>
      covering_child h q (p # pre @ c # post) = covering_child h q (pre @ c # post)"
    by (auto simp: covering_child_step simp del: covering_child.simps
             split: option.splits if_splits)
  with Cons.IH Cons.prems(2) show ?case by simp
qed

text \<open>
  \<^bold>\<open>C3\<close>. Whenever \<open>match_network_objects\<close> returns, its result is the list of the
  objects, each once and in the order of the configuration, that have a child whose
  address (host pattern first, subnet pattern as fallback) contains the query's range or
  lies inside it; the objects without such a child are left out. The scan of an
  object's children stops at the first covering child: what follows it is not looked
  at, whatever it is. The function returns whenever every child that yields an address
  string yields one that parses.
\<close>

theorem C3_matched_objects:
  "(match_network_objects h q objs = Inr res \<longrightarrow> res = filter (object_covered h q) objs) \<and>
   (covering_child h q pre = Inr False \<and> child_covers h q c \<longrightarrow>
      covering_child h q (pre @ c # post) = Inr True) \<and>
   (list_all (\<lambda>obj. list_all (child_parses h) (children_of (line_at h obj))) objs \<longrightarrow>
      (\<exists>r. match_network_objects h q objs = Inr r))"
  using match_network_objects_Inr [of h q objs res] covering_child_first [of h q pre c post]
    match_network_objects_total [of h objs q]
  by blast

theorem C3_matched_objects_witness:
  "match_network_objects objects_config \<lparr>ip = 167772160, prefixlen = 24\<rparr> [0, 3, 5] = Inr [0, 5] \<and>
   filter (object_covered objects_config \<lparr>ip = 167772160, prefixlen = 24\<rparr>) [0, 3, 5] = [0, 5] \<and>
   covering_child objects_config \<lparr>ip = 167772160, prefixlen = 24\<rparr> [1, 2] = Inr True \<and>
   (\<exists>r. match_network_objects objects_config \<lparr>ip = 167772160, prefixlen = 24\<rparr> [3, 5] = Inr r)"
proof -
  let ?q = "\<lparr>ip = 167772160, prefixlen = 24\<rparr>"
  have a: "match_network_objects objects_config ?q [0, 3, 5] = Inr [0, 5]"
    by code_simp
  have b: "covering_child objects_config ?q [] = Inr False \<and> child_covers objects_config ?q 1"
    by code_simp
  have c: "list_all (\<lambda>obj. list_all (child_parses objects_config)
             (children_of (line_at objects_config obj))) [3, 5]"
    by code_simp
  from a b c C3_matched_objects [of objects_config ?q "[0, 3, 5]" "[0, 5]" "[]" 1 "[2]"]
    C3_matched_objects [of objects_config ?q "[3, 5]" "[5]" "[]" 1 "[2]"]
  show ?thesis by simp
qed

section \<open>Bare addresses in access-list lines\<close>

text \<open>
  \<^bold>\<open>C5\<close>. Whenever the loop over the \<open>host\<close> tokens of an access-list line ends
  without an exception, it has appended the line exactly when the query's range contains
  the address of one of the tokens. Containment is tested in this direction only: a
  token whose address the query does not contain never appends the line. The loop ends
  without an exception whenever every token parses.
\<close>

theorem C5_bare_host_condition:
  "(bare_host_hit (Some q) (findall RE_BARE_ACL_HOST t) = Inr hit \<longrightarrow>
      hit = list_ex (covered_by q) (findall RE_BARE_ACL_HOST t)) \<and>
   (list_all (\<lambda>IP. IPv4Obj IP \<noteq> None) (findall RE_BARE_ACL_HOST t) \<longrightarrow>
      (\<exists>b. bare_host_hit (Some q) (findall RE_BARE_ACL_HOST t) = Inr b))"
proof -
  have "list_all (\<lambda>IP. IPv4Obj IP \<noteq> None) IPs \<Longrightarrow> \<exists>b. bare_host_hit (Some q) IPs = Inr b"
    for IPs
    by (induction IPs) auto
  with bare_host_hit_Inr [of q "findall RE_BARE_ACL_HOST t" hit] show ?thesis by blast
qed

theorem C5_bare_host_condition_witness:
  "bare_host_hit (Some \<lparr>ip = 167837953, prefixlen = 32\<rparr>)
     (findall RE_BARE_ACL_HOST ''access-list LEGACY permit ip host 10.1.1.1 host 10.1.1.2'')
     = Inr True \<and>
   list_ex (covered_by \<lparr>ip = 167837953, prefixlen = 32\<rparr>)
     (findall RE_BARE_ACL_HOST ''access-list LEGACY permit ip host 10.1.1.1 host 10.1.1.2'')"
proof -
  let ?q = "\<lparr>ip = 167837953, prefixlen = 32\<rparr>"
  let ?t = "''access-list LEGACY permit ip host 10.1.1.1 host 10.1.1.2''"
  have a: "bare_host_hit (Some ?q) (findall RE_BARE_ACL_HOST ?t) = Inr True"
    by code_simp
  from a C5_bare_host_condition [of ?q ?t True] show ?thesis by simp
qed




section \<open>The store\<close>

lemma new_IOSCfgLine_frame:
  assumes "new_IOSCfgLine h t = (p, h1)"
  shows "p = fresh h" and "fresh h1 = Suc (fresh h)"
    and "i \<noteq> fresh h \<Longrightarrow> line_at h1 i = line_at h i"
    and "text_of (line_at h1 p) = t" and "children_of (line_at h1 p) = []"
  using assms by (auto simp: new_IOSCfgLine_def)

lemma add_child_fresh [simp]: "fresh (add_child h p c) = fresh h"
  by (simp add: add_child_def)

lemma add_child_other: "i \<noteq> p \<Longrightarrow> line_at (add_child h p c) i = line_at h i"
  by (simp add: add_child_def)

lemma add_child_text [simp]: "text_of (line_at (add_child h p c) i) = text_of (line_at h i)"
  by (simp add: add_child_def)

lemma add_child_linenum [simp]: "linenum (line_at (add_child h p c) i) = linenum (line_at h i)"
  by (simp add: add_child_def)

lemma add_children_fresh [simp]: "fresh (add_children h p cs) = fresh h"
  by (induction cs arbitrary: h) simp_all

lemma add_children_other: "i \<noteq> p \<Longrightarrow> line_at (add_children h p cs) i = line_at h i"
  by (induction cs arbitrary: h) (simp_all add: add_child_other)

lemma add_children_text [simp]:
  "text_of (line_at (add_children h p cs) i) = text_of (line_at h i)"
  by (induction cs arbitrary: h) simp_all

lemma groups_frame:
  "match_network_object_groups h q groups mo = Inr (h', out) \<Longrightarrow>
   fresh h \<le> fresh h' \<and> (\<forall>i<fresh h. line_at h' i = line_at h i) \<and>
   (\<forall>p\<in>set out. fresh h \<le> p \<and> p < fresh h')"
proof (induction groups arbitrary: h h' out)
  case Nil
  then show ?case by simp
next
  case (Cons g groups)
  from Cons.prems obtain children where
    ch: "matched_children h q mo (children_of (line_at h g)) = Inr children"
    by (auto simp: bindE_def split: sum.splits)
  show ?case
  proof (cases "children = []")
    case True
    with Cons.prems ch have "match_network_object_groups h q groups mo = Inr (h', out)"
      by (simp add: bindE_def)
    from Cons.IH [OF this] show ?thesis .
  next
    case False
    obtain p h1 where n: "new_IOSCfgLine h (text_of (line_at h g)) = (p, h1)"
      by (cases "new_IOSCfgLine h (text_of (line_at h g))")
    define h2 where "h2 = add_children h1 p children"
    from Cons.prems ch False n obtain rest where
      r: "match_network_object_groups h2 q groups mo = Inr (h', rest)" and o: "out = p # rest"
      by (auto simp: bindE_def h2_def split: sum.splits)
    note f = new_IOSCfgLine_frame [OF n]
    have fr: "fresh h2 = Suc (fresh h)" by (simp add: h2_def f)
    have same: "\<forall>i<fresh h. line_at h2 i = line_at h i"
      by (simp add: h2_def f add_children_other)
    from Cons.IH [OF r] fr same o f(1) show ?thesis by auto
  qed
qed

lemma assign_groups_if_frame:
  "assign_groups_if h q groups name mo = Inr (h', out) \<Longrightarrow>
   fresh h \<le> fresh h' \<and> (\<forall>i<fresh h. line_at h' i = line_at h i) \<and>
   (\<forall>ps. out = Some ps \<longrightarrow> (\<forall>p\<in>set ps. fresh h \<le> p \<and> p < fresh h'))"
proof (cases q)
  case None
  assume "assign_groups_if h q groups name mo = Inr (h', out)"
  with None show ?thesis by (simp add: assign_groups_if_def)
next
  case (Some x)
  assume "assign_groups_if h q groups name mo = Inr (h', out)"
  with Some obtain objs ps where
    "match_network_object_groups h x groups objs = Inr (h', ps)" "out = Some ps"
    by (auto simp: assign_groups_if_def bindE_def split: sum.splits)
  with groups_frame [of h x groups objs h' ps] show ?thesis by simp
qed

lemma run_frame:
  assumes "run h config subnet source dest = Inr (h', r)"
  shows "(\<forall>i<fresh h. line_at h' i = line_at h i) \<and>
         (\<forall>p\<in>set (matched_groups_of r). fresh h \<le> p \<and> p < fresh h')"
proof -
  from assms obtain mo smo h1 mg h2 smg dmg grps where
    a1: "assign_groups_if h subnet (find_objects h config RE_OBJECT_GROUP)
           ''matched_objects'' mo = Inr (h1, mg)" and
    a2: "assign_groups_if h1 source (find_objects h config RE_OBJECT_GROUP)
           ''source_matched_objects'' smo = Inr (h2, smg)" and
    a3: "assign_groups_if h2 dest (find_objects h config RE_OBJECT_GROUP)
           ''dest_matched_groups'' None = Inr (h', dmg)" and
    g: "mg = Some grps" "matched_groups_of r = grps"
    by (auto simp: run_def Let_def bindE_def lookup_def
             split: sum.splits prod.splits option.splits)
  note f1 = assign_groups_if_frame [OF a1]
  note f2 = assign_groups_if_frame [OF a2]
  note f3 = assign_groups_if_frame [OF a3]
  have "\<forall>i<fresh h. line_at h' i = line_at h i"
    using f1 f2 f3 by (metis less_le_trans)
  moreover have "\<forall>p\<in>set grps. fresh h \<le> p \<and> p < fresh h'"
  proof -
    have "\<forall>p\<in>set grps. fresh h \<le> p \<and> p < fresh h1" using f1 g(1) by simp
    moreover have "fresh h1 \<le> fresh h'" using f2 f3 by linarith
    ultimately show ?thesis by (auto intro: less_le_trans)
  qed
  ultimately show ?thesis using g(2) by simp
qed


text \<open>
  \<^bold>\<open>C8\<close>. A run that ends with a report leaves every line of the parsed configuration
  as it was: text, line number, parent and children of every address below \<open>fresh\<close>
  of the initial store are the same afterwards. The emitted matched groups are new
  lines, at addresses that the initial store did not use. The same holds of
  \<open>match_network_object_groups\<close> alone.
\<close>

theorem C8_configuration_unchanged:
  "(run h config subnet source dest = Inr (h', r) \<longrightarrow>
      (i < fresh h \<longrightarrow> line_at h' i = line_at h i) \<and>
      list_all (\<lambda>p. fresh h \<le> p \<and> p < fresh h') (matched_groups_of r)) \<and>
   (match_network_object_groups h q object_groups matched = Inr (h'', out) \<longrightarrow>
      (i < fresh h \<longrightarrow> line_at h'' i = line_at h i) \<and>
      list_all (\<lambda>p. fresh h \<le> p \<and> p < fresh h'') out)"
  using run_frame [of h config subnet source dest h' r]
    groups_frame [of h q object_groups matched h'' out]
  by (simp add: list_all_iff)

theorem C8_configuration_unchanged_witness:
  "\<exists>h' r. run web_config [0, 1, 2, 3, 4] (Some \<lparr>ip = 3405803776, prefixlen = 24\<rparr>) None None
             = Inr (h', r) \<and>
          line_at h' 2 = line_at web_config 2 \<and> line_at h' 3 = line_at web_config 3 \<and>
          list_all (\<lambda>p. fresh web_config \<le> p \<and> p < fresh h') (matched_groups_of r) \<and>
          matched_groups_of r = [5]"
proof -
  let ?run = "run web_config [0, 1, 2, 3, 4] (Some \<lparr>ip = 3405803776, prefixlen = 24\<rparr>) None None"
  have a: "map_option matched_groups_of (report_of ?run) = Some [5]"
    by code_simp
  then obtain h' r where b: "?run = Inr (h', r)" and c: "matched_groups_of r = [5]"
    by (auto simp: report_of_def split: sum.splits prod.splits)
  have d: "(2::nat) < fresh web_config \<and> (3::nat) < fresh web_config"
    by (simp add: web_config_def parsed_def)
  from b c d
    C8_configuration_unchanged [of web_config "[0, 1, 2, 3, 4]"
      "Some \<lparr>ip = 3405803776, prefixlen = 24\<rparr>" None None h' r 2]
    C8_configuration_unchanged [of web_config "[0, 1, 2, 3, 4]"
      "Some \<lparr>ip = 3405803776, prefixlen = 24\<rparr>" None None h' r 3]
  show ?thesis by auto
qed


section \<open>Object groups\<close>





lemma line_key_add_child [simp]: "line_key (add_child h p c) = line_key h"
  by (rule ext) (simp add: line_key_def)











section \<open>What the bare-host pattern captures\<close>

lemma rx_match_sound:
  "(b', s', g') \<in> set (rx_match r (b, s, g)) \<Longrightarrow> \<exists>u\<in>lang r. s = u @ s'"
proof (induction r arbitrary: b s g b' s' g')
  case (Lit l)
  then show ?case by (auto simp: prefix_def split: if_splits)
next
  case (One cs)
  then show ?case by (auto split: list.splits if_splits)
next
  case (Many1 cs)
  then obtain k where k: "1 \<le> k" "k \<le> length (takeWhile (cmem cs) s)" and s': "s' = drop k s"
    by auto
  have "take k (takeWhile (cmem cs) s @ dropWhile (cmem cs) s) = take k (takeWhile (cmem cs) s)"
    using k(2) by (simp del: takeWhile_dropWhile_id)
  then have tk: "take k s = take k (takeWhile (cmem cs) s)" by simp
  have "set (take k (takeWhile (cmem cs) s)) \<subseteq> set (takeWhile (cmem cs) s)"
    by (rule set_take_subset)
  then have la: "list_all (cmem cs) (take k s)"
    unfolding tk list_all_iff using set_takeWhileD [of _ "cmem cs" s] by blast
  have ne: "take k s \<noteq> []"
    using k length_takeWhile_le [of "cmem cs" s] by auto
  show ?case
  proof (rule bexI [where x = "take k s"])
    show "s = take k s @ s'" unfolding s' by simp
    show "take k s \<in> lang (Many1 cs)" using la ne by simp
  qed
next
  case (Seq r1 r2)
  from Seq.prems obtain b1 s1 g1 where
    a: "(b1, s1, g1) \<in> set (rx_match r1 (b, s, g))" and
    c: "(b', s', g') \<in> set (rx_match r2 (b1, s1, g1))"
    by auto
  from Seq.IH(1) [OF a] obtain u1 where u1: "u1 \<in> lang r1" "s = u1 @ s1" by blast
  from Seq.IH(2) [OF c] obtain u2 where u2: "u2 \<in> lang r2" "s1 = u2 @ s'" by blast
  show ?case
  proof (rule bexI [where x = "u1 @ u2"])
    show "s = (u1 @ u2) @ s'" using u1(2) u2(2) by simp
    show "u1 @ u2 \<in> lang (Seq r1 r2)" using u1(1) u2(1) by auto
  qed
next
  case (Alt r1 r2)
  from Alt.prems consider
    (left) "(b', s', g') \<in> set (rx_match r1 (b, s, g))" |
    (right) "(b', s', g') \<in> set (rx_match r2 (b, s, g))"
    by auto
  then show ?case
  proof cases
    case left
    from Alt.IH(1) [OF left] show ?thesis by auto
  next
    case right
    from Alt.IH(2) [OF right] show ?thesis by auto
  qed
next
  case (Opt r)
  from Opt.prems consider
    (taken) "(b', s', g') \<in> set (rx_match r (b, s, g))" |
    (skipped) "s' = s"
    by auto
  then show ?case
  proof cases
    case taken
    from Opt.IH [OF taken] show ?thesis by auto
  next
    case skipped
    then show ?thesis by simp
  qed
next
  case Bol
  then show ?case by (auto split: if_splits)
next
  case Eol
  then show ?case by (auto split: if_splits)
next
  case (Grp r)
  from Grp.prems obtain g0 where "(b', s', g0) \<in> set (rx_match r (b, s, g))"
    by auto
  from Grp.IH [OF this] show ?case by simp
qed

lemma rx_match_Grp:
  assumes "(b', s', g') \<in> set (rx_match (Grp r) (b, s, g))"
  shows "\<exists>u\<in>lang r. g' = Some u"
proof -
  from assms obtain g0 where m: "(b', s', g0) \<in> set (rx_match r (b, s, g))"
    and g': "g' = Some (take (length s - length s') s)"
    by auto
  from rx_match_sound [OF m] obtain u where "u \<in> lang r" "s = u @ s'" by blast
  with g' show ?thesis by auto
qed

lemma rx_match_BARE_ACL_HOST:
  assumes "(b', s', g') \<in> set (rx_match RE_BARE_ACL_HOST (b, s, g))"
  shows "\<exists>u\<in>lang rx_dotted. g' = Some u"
proof -
  from assms have "\<exists>st. (b', s', g') \<in> set (rx_match (Grp rx_dotted) st)"
    unfolding RE_BARE_ACL_HOST_def rx_match.simps(4) by (auto simp del: rx_match.simps)
  then obtain st where st: "(b', s', g') \<in> set (rx_match (Grp rx_dotted) st)" ..
  obtain b1 s1 g1 where "st = (b1, s1, g1)" by (cases st)
  with st have "(b', s', g') \<in> set (rx_match (Grp rx_dotted) (b1, s1, g1))" by simp
  from rx_match_Grp [OF this] show ?thesis .
qed

lemma findall_from_items:
  "\<forall>b0 s0 b' s' g rest. rx_match r (b0, s0, None) = (b', s', g) # rest \<longrightarrow>
      Q (case g of Some x \<Rightarrow> x | None \<Rightarrow> take (length s0 - length s') s0) \<Longrightarrow>
   x \<in> set (findall_from r b s) \<Longrightarrow> Q x"
proof (induction r b s rule: findall_from.induct)
  case (1 r b s)
  note step = "1.prems"(1)
  note mem = "1.prems"(2)
  show ?case
  proof (cases "rx_match r (b, s, None)")
    case Nil
    note nomatch = Nil
    show ?thesis
    proof (cases s)
      case Nil
      with nomatch mem show ?thesis
        by (subst (asm) findall_from.simps) simp
    next
      case (Cons c cs)
      with nomatch mem have "x \<in> set (findall_from r False cs)"
        by (subst (asm) findall_from.simps) simp
      from "1.IH"(1) [OF nomatch Cons step this] show ?thesis .
    qed
  next
    case (Cons m rest)
    note match = Cons
    obtain b' s' g where m: "m = (b', s', g)" by (cases m)
    let ?item = "case g of Some x \<Rightarrow> x | None \<Rightarrow> take (length s - length s') s"
    from match m have "rx_match r (b, s, None) = (b', s', g) # rest" by simp
    from step [rule_format, OF this] have Qi: "Q ?item" .
    show ?thesis
    proof (cases "length s' < length s")
      case True
      with match m mem have "x = ?item \<or> x \<in> set (findall_from r False s')"
        by (subst (asm) findall_from.simps) (auto simp: Let_def)
      then show ?thesis
      proof
        assume "x = ?item" with Qi show ?thesis by simp
      next
        assume "x \<in> set (findall_from r False s')"
        from "1.IH"(2) [OF match m [symmetric] refl refl True step this] show ?thesis .
      qed
    next
      case False
      note notless = False
      show ?thesis
      proof (cases s)
        case Nil
        with match m notless mem have "x = ?item"
          by (subst (asm) findall_from.simps) (auto simp: Let_def)
        with Qi show ?thesis by simp
      next
        case (Cons c cs)
        with match m notless mem have "x = ?item \<or> x \<in> set (findall_from r False cs)"
          by (subst (asm) findall_from.simps) (auto simp: Let_def)
        then show ?thesis
        proof
          assume "x = ?item" with Qi show ?thesis by simp
        next
          assume "x \<in> set (findall_from r False cs)"
          from "1.IH"(3) [OF match m [symmetric] refl refl notless Cons step this]
          show ?thesis .
        qed
      qed
    qed
  qed
qed

lemma digit_val_bounds: "c \<in> set digits \<Longrightarrow> 0 \<le> digit_val c \<and> digit_val c \<le> 9"
  by (auto simp: digits_def digit_val_def)

lemma decimal_1: "decimal [a] = digit_val a"
  by (simp add: decimal_def)

lemma decimal_2: "decimal [a, b] = 10 * digit_val a + digit_val b"
  by (simp add: decimal_def)

lemma decimal_3: "decimal [a, b, c] = 100 * digit_val a + 10 * digit_val b + digit_val c"
  by (simp add: decimal_def)

lemma octet_25x:
  assumes "u \<in> lang (Seq (Lit ''25'') (One (In ''012345'')))"
  shows "octet_shape u"
proof -
  from assms obtain c where u: "u = [CHR ''2'', CHR ''5'', c]" and c: "c \<in> set ''012345''"
    by auto
  from c have "c \<in> set digits \<and> digit_val c \<le> 5"
    by (auto simp: digits_def digit_val_def)
  then show ?thesis
    by (simp add: octet_shape_def u decimal_3) (simp add: digits_def digit_val_def)
qed

lemma octet_2xx:
  assumes "u \<in> lang (seqs [Lit ''2'', One (In ''01234''), One (In digits)])"
  shows "octet_shape u"
proof -
  from assms obtain c d where u: "u = [CHR ''2'', c, d]" and c: "c \<in> set ''01234''"
    and d: "d \<in> set digits"
    by auto
  from c have "c \<in> set digits \<and> digit_val c \<le> 4"
    by (auto simp: digits_def digit_val_def)
  with d digit_val_bounds [OF d] show ?thesis
    by (simp add: octet_shape_def u decimal_3) (simp add: digits_def digit_val_def)
qed

lemma digit_0_1:
  "CHR ''0'' \<in> set digits" "CHR ''1'' \<in> set digits"
  "digit_val CHR ''0'' = 0" "digit_val CHR ''1'' = 1"
  by (simp_all add: digits_def digit_val_def)

lemma octet_shape_1: "d \<in> set digits \<Longrightarrow> octet_shape [d]"
  using digit_val_bounds [of d] by (simp add: octet_shape_def decimal_1)

lemma octet_shape_2: "c \<in> set digits \<Longrightarrow> d \<in> set digits \<Longrightarrow> octet_shape [c, d]"
  using digit_val_bounds [of c] digit_val_bounds [of d]
  by (simp add: octet_shape_def decimal_2)

lemma octet_shape_3:
  "a \<in> set digits \<Longrightarrow> digit_val a \<le> 1 \<Longrightarrow> c \<in> set digits \<Longrightarrow> d \<in> set digits
   \<Longrightarrow> octet_shape [a, c, d]"
  using digit_val_bounds [of a] digit_val_bounds [of c] digit_val_bounds [of d]
  by (simp add: octet_shape_def decimal_3)

lemma octet_xxx:
  assumes "u \<in> lang (seqs [Opt (One (In ''01'')), One (In digits), Opt (One (In digits))])"
  shows "octet_shape u"
  using assms
  by (auto simp: digit_0_1 octet_shape_1 octet_shape_2 octet_shape_3)

lemma lang_octet: "u \<in> lang rx_octet \<Longrightarrow> octet_shape u"
  unfolding rx_octet_def lang.simps(5) using octet_25x octet_2xx octet_xxx by blast

lemma lang_dotted:
  assumes "u \<in> lang rx_dotted"
  shows "\<exists>o1 o2 o3 o4. u = o1 @ CHR ''.'' # o2 @ CHR ''.'' # o3 @ CHR ''.'' # o4 \<and>
           octet_shape o1 \<and> octet_shape o2 \<and> octet_shape o3 \<and> octet_shape o4"
proof -
  from assms obtain o1 o2 o3 o4 where
    "u = o1 @ CHR ''.'' # o2 @ CHR ''.'' # o3 @ CHR ''.'' # o4"
    "o1 \<in> lang rx_octet" "o2 \<in> lang rx_octet" "o3 \<in> lang rx_octet" "o4 \<in> lang rx_octet"
    by (auto simp: rx_dotted_def)
  then show ?thesis using lang_octet by blast
qed

lemma split_on_no_sep: "d \<notin> set u \<Longrightarrow> split_on d u = [u]"
  by (induction u) auto

lemma split_on_append: "d \<notin> set u \<Longrightarrow> split_on d (u @ d # v) = u # split_on d v"
  by (induction u) auto

lemma dot_no_digit: "CHR ''.'' \<notin> set digits"
  by (simp add: digits_def)

lemma octet_shape_no_dot: "octet_shape s \<Longrightarrow> CHR ''.'' \<notin> set s"
  using dot_no_digit by (auto simp: octet_shape_def list_all_iff)

lemma digits_plain: "c \<in> set digits \<Longrightarrow> c \<notin> set whitespace \<and> c \<noteq> CHR ''/''"
  by (auto simp: digits_def whitespace_def)

lemma octet_shape_plain:
  "octet_shape s \<Longrightarrow> c \<in> set s \<Longrightarrow> c \<notin> set whitespace \<and> c \<noteq> CHR ''/''"
  using digits_plain by (simp add: octet_shape_def list_all_iff)

lemma parse_octet_shape:
  "octet_shape s \<Longrightarrow> parse_octet s = Some (decimal s)"
  by (auto simp: octet_shape_def parse_octet_def)

lemma dotted_split:
  assumes "octet_shape o1" "octet_shape o2" "octet_shape o3" "octet_shape o4"
  shows "split_on CHR ''.'' (o1 @ CHR ''.'' # o2 @ CHR ''.'' # o3 @ CHR ''.'' # o4)
           = [o1, o2, o3, o4]"
proof -
  note nd = assms [THEN octet_shape_no_dot]
  have "split_on CHR ''.'' o4 = [o4]" using nd(4) by (rule split_on_no_sep)
  then have "split_on CHR ''.'' (o3 @ CHR ''.'' # o4) = [o3, o4]"
    using split_on_append [OF nd(3), of o4] by simp
  then have "split_on CHR ''.'' (o2 @ CHR ''.'' # o3 @ CHR ''.'' # o4) = [o2, o3, o4]"
    using split_on_append [OF nd(2), of "o3 @ CHR ''.'' # o4"] by simp
  then show ?thesis
    using split_on_append [OF nd(1), of "o2 @ CHR ''.'' # o3 @ CHR ''.'' # o4"] by simp
qed

lemma dotted_plain:
  assumes "octet_shape o1" "octet_shape o2" "octet_shape o3" "octet_shape o4"
    and "c \<in> set (o1 @ CHR ''.'' # o2 @ CHR ''.'' # o3 @ CHR ''.'' # o4)"
  shows "c \<notin> set whitespace \<and> c \<noteq> CHR ''/''"
proof -
  from assms(5) consider "c = CHR ''.''" | "c \<in> set o1" | "c \<in> set o2" | "c \<in> set o3"
    | "c \<in> set o4"
    by auto
  then show ?thesis
  proof cases
    case 1
    then show ?thesis by (simp add: whitespace_def)
  next
    case 2
    with assms(1) show ?thesis by (rule octet_shape_plain)
  next
    case 3
    with assms(2) show ?thesis by (rule octet_shape_plain)
  next
    case 4
    with assms(3) show ?thesis by (rule octet_shape_plain)
  next
    case 5
    with assms(4) show ?thesis by (rule octet_shape_plain)
  qed
qed

lemma dotted_int:
  assumes "octet_shape o1" "octet_shape o2" "octet_shape o3" "octet_shape o4"
  shows "ip_int_from_string (o1 @ CHR ''.'' # o2 @ CHR ''.'' # o3 @ CHR ''.'' # o4) =
      Some (((decimal o1 * 256 + decimal o2) * 256 + decimal o3) * 256 + decimal o4)"
  unfolding ip_int_from_string_def dotted_split [OF assms]
  using assms by (simp add: parse_octet_shape)

lemma dotted_IPv4Obj:
  assumes "octet_shape o1" "octet_shape o2" "octet_shape o3" "octet_shape o4"
  shows "\<exists>a. IPv4Obj (o1 @ CHR ''.'' # o2 @ CHR ''.'' # o3 @ CHR ''.'' # o4) = Some a \<and>
             prefixlen a = 32"
proof -
  let ?u = "o1 @ CHR ''.'' # o2 @ CHR ''.'' # o3 @ CHR ''.'' # o4"
  let ?P = "\<lambda>c. c \<notin> set whitespace \<and> c \<noteq> CHR ''/''"
  have all: "\<forall>c\<in>set ?u. ?P c"
    using dotted_plain [OF assms] by blast
  then have tw: "takeWhile ?P ?u = ?u" by (simp only: takeWhile_eq_all_conv)
  from all have dw: "dropWhile ?P ?u = []" by (simp only: dropWhile_eq_Nil_conv)
  show ?thesis
    unfolding IPv4Obj_def Let_def tw dw dotted_int [OF assms] by simp
qed

lemma captured_dotted:
  assumes "IP \<in> set (findall RE_BARE_ACL_HOST t)"
  shows "\<exists>o1 o2 o3 o4. IP = o1 @ CHR ''.'' # o2 @ CHR ''.'' # o3 @ CHR ''.'' # o4 \<and>
           octet_shape o1 \<and> octet_shape o2 \<and> octet_shape o3 \<and> octet_shape o4"
proof (rule findall_from_items [OF _ assms [unfolded findall_def]], intro allI impI)
  fix b0 s0 b' s' g rest
  assume m: "rx_match RE_BARE_ACL_HOST (b0, s0, None) = (b', s', g) # rest"
  then have "(b', s', g) \<in> set (rx_match RE_BARE_ACL_HOST (b0, s0, None))" by simp
  from rx_match_BARE_ACL_HOST [OF this] obtain u where "u \<in> lang rx_dotted" "g = Some u"
    by blast
  with lang_dotted [of u]
  show "\<exists>o1 o2 o3 o4.
          (case g of Some x \<Rightarrow> x | None \<Rightarrow> take (length s0 - length s') s0)
            = o1 @ CHR ''.'' # o2 @ CHR ''.'' # o3 @ CHR ''.'' # o4 \<and>
          octet_shape o1 \<and> octet_shape o2 \<and> octet_shape o3 \<and> octet_shape o4"
    by simp
qed

lemma bare_host_hit_total:
  "list_all (\<lambda>IP. IPv4Obj IP \<noteq> None) IPs \<Longrightarrow> \<exists>b. bare_host_hit (Some q) IPs = Inr b"
  by (induction IPs) auto

lemma captured_parses:
  assumes "IP \<in> set (findall RE_BARE_ACL_HOST t)"
  shows "\<exists>a. IPv4Obj IP = Some a \<and> prefixlen a = 32"
proof -
  from captured_dotted [OF assms] obtain o1 o2 o3 o4 where
    IP: "IP = o1 @ CHR ''.'' # o2 @ CHR ''.'' # o3 @ CHR ''.'' # o4" and
    os: "octet_shape o1" "octet_shape o2" "octet_shape o3" "octet_shape o4"
    by blast
  from dotted_IPv4Obj [OF os] show ?thesis unfolding IP .
qed

text \<open>
  \<^bold>\<open>C10\<close>. Every string the bare-host pattern captures is a dotted quad: four fields
  separated by dots, each of one to three decimal digits with a value of at most 255.
  The address parse of condition 3 succeeds on every such string and gives a single
  host, so the loop of condition 3 never raises: it always ends with a verdict.
\<close>

theorem C10_captured_host_shape:
  "(IP \<in> set (findall RE_BARE_ACL_HOST t) \<longrightarrow>
      length (split_on CHR ''.'' IP) = 4 \<and>
      list_all octet_shape (split_on CHR ''.'' IP) \<and>
      (\<exists>a. IPv4Obj IP = Some a \<and> prefixlen a = 32)) \<and>
   (\<exists>b. bare_host_hit (Some q) (findall RE_BARE_ACL_HOST t) = Inr b)"
proof
  show "IP \<in> set (findall RE_BARE_ACL_HOST t) \<longrightarrow>
      length (split_on CHR ''.'' IP) = 4 \<and>
      list_all octet_shape (split_on CHR ''.'' IP) \<and>
      (\<exists>a. IPv4Obj IP = Some a \<and> prefixlen a = 32)"
  proof
    assume mem: "IP \<in> set (findall RE_BARE_ACL_HOST t)"
    from captured_dotted [OF mem] obtain o1 o2 o3 o4 where
      IP: "IP = o1 @ CHR ''.'' # o2 @ CHR ''.'' # o3 @ CHR ''.'' # o4" and
      os: "octet_shape o1" "octet_shape o2" "octet_shape o3" "octet_shape o4"
      by blast
    have sp: "split_on CHR ''.'' IP = [o1, o2, o3, o4]"
      unfolding IP by (rule dotted_split [OF os])
    from os captured_parses [OF mem]
    show "length (split_on CHR ''.'' IP) = 4 \<and>
      list_all octet_shape (split_on CHR ''.'' IP) \<and>
      (\<exists>a. IPv4Obj IP = Some a \<and> prefixlen a = 32)"
      by (simp add: sp)
  qed
  have "IPv4Obj x \<noteq> None" if "x \<in> set (findall RE_BARE_ACL_HOST t)" for x
    using captured_parses [OF that] by auto
  then have "list_all (\<lambda>IP. IPv4Obj IP \<noteq> None) (findall RE_BARE_ACL_HOST t)"
    unfolding list_all_iff by blast
  then show "\<exists>b. bare_host_hit (Some q) (findall RE_BARE_ACL_HOST t) = Inr b"
    by (rule bare_host_hit_total)
qed

theorem C10_captured_host_shape_witness:
  "''010.1.1.1'' \<in> set (findall RE_BARE_ACL_HOST
       ''access-list A permit ip host 010.1.1.1 host 10.1.1.256'') \<and>
   list_all octet_shape (split_on CHR ''.'' ''010.1.1.1'') \<and>
   (\<exists>a. IPv4Obj ''010.1.1.1'' = Some a \<and> prefixlen a = 32) \<and>
   (\<exists>b. bare_host_hit (Some \<lparr>ip = 167772160, prefixlen = 8\<rparr>)
          (findall RE_BARE_ACL_HOST
             ''access-list A permit ip host 010.1.1.1 host 10.1.1.256'') = Inr b)"
proof -
  have a: "''010.1.1.1'' \<in> set (findall RE_BARE_ACL_HOST
       ''access-list A permit ip host 010.1.1.1 host 10.1.1.256'')"
    by code_simp
  from a C10_captured_host_shape
    [of "''010.1.1.1''" "''access-list A permit ip host 010.1.1.1 host 10.1.1.256''"
        "\<lparr>ip = 167772160, prefixlen = 8\<rparr>"]
  show ?thesis by blast
qed

end
